theory Spec2Isabelle
  imports Main "HOL-Library.Finite_Map"
begin

section \<open>Selective-Repeat sender and receiver of Protocol\_SR.py\<close>

text \<open>
  The two classes \<^verbatim>\<open>rdt_Sender\<close> and \<^verbatim>\<open>rdt_Receiver\<close> are embedded as records
  with one field per attribute and one HOL function per method. Python integers are
  \<^typ>\<open>int\<close> (\<open>mod\<close> on \<^typ>\<open>int\<close> takes the sign of the divisor, as Python's
  \<^verbatim>\<open>%\<close> does), dictionaries are finite maps, and every exception a method can raise is
  a value of \<open>error\<close> returned on the left of a sum.

  The simulation environment, the channel and the receiving application are
  collaborators that the test bed attaches before the first call. The model keeps of
  them what the methods do to them: the list of packets handed to
  \<^verbatim>\<open>channel.udt_send\<close> and the list of payloads handed to
  \<^verbatim>\<open>receiving_app.deliver_data\<close>, both in call order. Printing is left out.
\<close>

datatype error = ZeroDivisionError | KeyError

subsection \<open>Packets and timer processes\<close>

text \<open>
  Modelled from the spec: the class \<^verbatim>\<open>Packet\<close> (imported from the module
  \<^verbatim>\<open>Packet\<close>) is not among the sources. The spec gives it the fields
  \<open>seq_num\<close>, \<open>payload\<close>, \<open>length\<close> and \<open>corrupted\<close>; the constructor call in the
  source names the arguments \<^verbatim>\<open>seq_num\<close>, \<^verbatim>\<open>payload\<close> and
  \<^verbatim>\<open>packet_length\<close>. A packet leaves its constructor uncorrupted: corruption is what
  the channel does to it.
\<close>

record packet =
  seq_num :: int
  payload :: string
  packet_length :: int
  corrupted :: bool

definition Packet :: "int \<Rightarrow> string \<Rightarrow> int \<Rightarrow> packet" where
  "Packet sn pl len = \<lparr>seq_num = sn, payload = pl, packet_length = len, corrupted = False\<rparr>"

text \<open>
  A timer is a SimPy process. The sender reads one attribute of it, \<^verbatim>\<open>triggered\<close>,
  which is false while the process is alive and true once its generator has returned.
\<close>

datatype process = Process (triggered: bool)

subsection \<open>The sender\<close>

record sender =
  channel :: "packet list"
  data_packet_length :: int
  timeout_value :: int
  N :: int
  K :: int
  base :: int
  nextseqnum :: int
  sndpkt :: "(int, packet) fmap"
  acknowledged :: "(int, bool) fmap"
  total_packets_sent :: int
  num_retransmissions :: int
  timers :: "(int, process) fmap"
  timer_is_running :: bool

text \<open>The constructor \<^verbatim>\<open>rdt_Sender.__init__\<close>, with a channel attached that has
  carried nothing yet.\<close>

definition init_sender :: sender where
  "init_sender =
     \<lparr>channel = [], data_packet_length = 10, timeout_value = 10, N = 16, K = 16,
      base = 1, nextseqnum = 1, sndpkt = fmempty, acknowledged = fmempty,
      total_packets_sent = 0, num_retransmissions = 0, timers = fmempty,
      timer_is_running = False\<rparr>"

text \<open>
  The list \<^verbatim>\<open>[(base + i) % K for i in range(0, N)]\<close>. Python builds the whole list
  before it tests membership, so a zero modulus raises as soon as the range is not
  empty; an empty range divides nothing.
\<close>

definition window :: "int \<Rightarrow> int \<Rightarrow> int \<Rightarrow> error + int list" where
  "window b n k =
     (if 0 < n \<and> k = 0 then Inl ZeroDivisionError
      else Inr (map (\<lambda>i. (b + i) mod k) [0..n - 1]))"

definition udt_send :: "sender \<Rightarrow> packet \<Rightarrow> sender" where
  "udt_send s p = s\<lparr>channel := channel s @ [p]\<rparr>"

text \<open>
  \<^verbatim>\<open>start_timer\<close> creates the process; SimPy initialises a new process at the current
  simulated time ahead of every other pending event, and the first statement of
  \<^verbatim>\<open>timer_behavior\<close> sets \<^verbatim>\<open>timer_is_running\<close>. The model does both at once.
\<close>

definition start_timer :: "sender \<Rightarrow> int \<Rightarrow> sender" where
  "start_timer s sn =
     (if sn \<notin> fmdom' (timers s)
      then s\<lparr>timers := fmupd sn (Process False) (timers s), timer_is_running := True\<rparr>
      else s)"

text \<open>
  \<^verbatim>\<open>stop_timer\<close> interrupts a process that has not triggered; the interrupt handler of
  \<^verbatim>\<open>timer_behavior\<close> clears \<^verbatim>\<open>timer_is_running\<close>, and the entry is deleted. A
  triggered process and a missing entry are only reported.
\<close>

definition stop_timer :: "sender \<Rightarrow> int \<Rightarrow> sender" where
  "stop_timer s sn =
     (case fmlookup (timers s) sn of
        Some t \<Rightarrow>
          (if \<not> triggered t
           then s\<lparr>timers := fmdrop sn (timers s), timer_is_running := False\<rparr>
           else s)
      | None \<Rightarrow> s)"

text \<open>
  \<^verbatim>\<open>rdt_send\<close> returns its boolean together with the new state. Inside the accepting
  branch the window list is not empty, so the modulus of line 54 is not zero there.
\<close>

definition rdt_send :: "sender \<Rightarrow> string \<Rightarrow> error + (bool \<times> sender)" where
  "rdt_send s msg =
     (case window (base s) (N s) (K s) of
        Inl e \<Rightarrow> Inl e
      | Inr w \<Rightarrow>
          (if nextseqnum s \<in> set w then
             let s1 = s\<lparr>sndpkt := fmupd (nextseqnum s)
                          (Packet (nextseqnum s) msg (data_packet_length s)) (sndpkt s)\<rparr>;
                 s2 = udt_send s1 (the (fmlookup (sndpkt s1) (nextseqnum s1)));
                 s3 = s2\<lparr>total_packets_sent := total_packets_sent s2 + 1\<rparr>;
                 s4 = start_timer s3 (nextseqnum s3);
                 s5 = s4\<lparr>nextseqnum := (nextseqnum s4 + 1) mod K s4\<rparr>
             in Inr (True, s5)
           else Inr (False, s)))"

text \<open>
  The loop of \<^verbatim>\<open>rdt_Sender.rdt_rcv\<close> (lines 70 to 72). Each round deletes an entry of
  \<^verbatim>\<open>acknowledged\<close>, which is what ends it. With a zero modulus the assignment to
  \<^verbatim>\<open>base\<close> raises.
\<close>

function rdt_rcv_loop :: "sender \<Rightarrow> error + sender" where
  "rdt_rcv_loop s =
     (if fmlookup (acknowledged s) (base s) = Some True then
        (if K s = 0 then Inl ZeroDivisionError
         else rdt_rcv_loop (s\<lparr>acknowledged := fmdrop (base s) (acknowledged s),
                               base := (base s + 1) mod K s\<rparr>))
      else Inr s)"
  by pat_completeness auto
termination
proof (relation "measure (\<lambda>s. card (fmdom' (acknowledged s)))")
  show "wf (measure (\<lambda>s. card (fmdom' (acknowledged s))))" by simp
next
  fix s :: sender
  assume "fmlookup (acknowledged s) (base s) = Some True"
  then have "base s \<in> fmdom' (acknowledged s)" by (rule fmdom'I)
  with finite_fmdom'
  have "card (fmdom' (acknowledged s) - {base s}) < card (fmdom' (acknowledged s))"
    by (rule card_Diff1_less)
  then show "(s\<lparr>acknowledged := fmdrop (base s) (acknowledged s),
                base := (base s + 1) mod K s\<rparr>, s)
             \<in> measure (\<lambda>s. card (fmdom' (acknowledged s)))"
    by simp
qed

declare rdt_rcv_loop.simps [simp del]

definition rdt_rcv :: "sender \<Rightarrow> packet \<Rightarrow> error + sender" where
  "rdt_rcv s packt =
     (if \<not> corrupted packt then
        (if seq_num packt \<in> fmdom' (sndpkt s) then
           let s1 = s\<lparr>acknowledged := fmupd (seq_num packt) True (acknowledged s)\<rparr>;
               s2 = stop_timer s1 (seq_num packt)
           in rdt_rcv_loop s2
         else Inr s)
      else Inr s)"

text \<open>
  \<^verbatim>\<open>timeout_action\<close>: the \<^verbatim>\<open>del\<close> of line 121 raises when the timer table has no
  entry for the sequence number.
\<close>

definition timeout_action :: "sender \<Rightarrow> int \<Rightarrow> error + sender" where
  "timeout_action s sn =
     (if sn \<in> fmdom' (sndpkt s) then
        let s1 = udt_send s (the (fmlookup (sndpkt s) sn));
            s2 = s1\<lparr>num_retransmissions := num_retransmissions s1 + 1\<rparr>;
            s3 = s2\<lparr>total_packets_sent := total_packets_sent s2 + 1\<rparr>
        in if sn \<in> fmdom' (timers s3)
           then Inr (start_timer (s3\<lparr>timers := fmdrop sn (timers s3)\<rparr>) sn)
           else Inl KeyError
      else Inr s)"

text \<open>
  \<^verbatim>\<open>timer_behavior\<close> from the moment its wait has elapsed: the flag is cleared,
  \<^verbatim>\<open>timeout_action\<close> runs, the generator returns and its process is triggered from
  then on. When \<^verbatim>\<open>timeout_action\<close> has retransmitted, the table holds a new process
  under the sequence number; when it has not, the table still holds the process that
  has just ended.
\<close>

definition timer_behavior :: "sender \<Rightarrow> int \<Rightarrow> error + sender" where
  "timer_behavior s sn =
     (case timeout_action (s\<lparr>timer_is_running := False\<rparr>) sn of
        Inl e \<Rightarrow> Inl e
      | Inr s' \<Rightarrow>
          Inr (if sn \<in> fmdom' (sndpkt s) then s'
               else s'\<lparr>timers := fmupd sn (Process True) (timers s')\<rparr>))"

subsection \<open>The receiver\<close>

record receiver =
  recv_channel :: "packet list"
  receiving_app :: "string list"
  ack_packet_length :: int
  recv_K :: int
  expectedseqnum :: int
  receiving_window :: int
  recv_base :: int
  recv_sndpkt :: packet
  recv_total_packets_sent :: int
  recv_num_retransmissions :: int
  received_packets :: "(int, packet) fmap"

text \<open>The constructor \<^verbatim>\<open>rdt_Receiver.__init__\<close>, with a channel and an application
  attached.\<close>

definition init_receiver :: receiver where
  "init_receiver =
     \<lparr>recv_channel = [], receiving_app = [], ack_packet_length = 10, recv_K = 16,
      expectedseqnum = 1, receiving_window = 16, recv_base = 1,
      recv_sndpkt = Packet 0 ''ACK'' 10, recv_total_packets_sent = 0,
      recv_num_retransmissions = 0, received_packets = fmempty\<rparr>"

text \<open>
  The loop of \<^verbatim>\<open>rdt_Receiver.rdt_rcv\<close> (lines 167 to 170): deliver the payload stored
  at the base, delete the entry, advance the base.
\<close>

function deliver_loop :: "receiver \<Rightarrow> error + receiver" where
  "deliver_loop r =
     (case fmlookup (received_packets r) (recv_base r) of
        Some p \<Rightarrow>
          (if recv_K r = 0 then Inl ZeroDivisionError
           else deliver_loop
                  (r\<lparr>receiving_app := receiving_app r @ [payload p],
                     received_packets := fmdrop (recv_base r) (received_packets r),
                     recv_base := (recv_base r + 1) mod recv_K r\<rparr>))
      | None \<Rightarrow> Inr r)"
  by pat_completeness auto
termination
proof (relation "measure (\<lambda>r. card (fmdom' (received_packets r)))")
  show "wf (measure (\<lambda>r. card (fmdom' (received_packets r))))" by simp
next
  fix r :: receiver and p :: packet
  assume "fmlookup (received_packets r) (recv_base r) = Some p"
  then have "recv_base r \<in> fmdom' (received_packets r)" by (rule fmdom'I)
  with finite_fmdom'
  have "card (fmdom' (received_packets r) - {recv_base r})
        < card (fmdom' (received_packets r))"
    by (rule card_Diff1_less)
  then show "(r\<lparr>receiving_app := receiving_app r @ [payload p],
                received_packets := fmdrop (recv_base r) (received_packets r),
                recv_base := (recv_base r + 1) mod recv_K r\<rparr>, r)
             \<in> measure (\<lambda>r. card (fmdom' (received_packets r)))"
    by simp
qed

declare deliver_loop.simps [simp del]

definition receiver_rdt_rcv :: "receiver \<Rightarrow> packet \<Rightarrow> error + receiver" where
  "receiver_rdt_rcv r packt =
     (if \<not> corrupted packt then
        let r1 = r\<lparr>recv_sndpkt := Packet (seq_num packt) ''ACK'' (ack_packet_length r)\<rparr>;
            r2 = r1\<lparr>recv_channel := recv_channel r1 @ [recv_sndpkt r1]\<rparr>;
            r3 = r2\<lparr>recv_total_packets_sent := recv_total_packets_sent r2 + 1\<rparr>
        in (case window (recv_base r3) (receiving_window r3) (recv_K r3) of
              Inl e \<Rightarrow> Inl e
            | Inr w \<Rightarrow>
                (if seq_num packt \<in> set w then
                   deliver_loop
                     (r3\<lparr>received_packets :=
                           fmupd (seq_num packt) packt (received_packets r3)\<rparr>)
                 else Inr (r3\<lparr>recv_num_retransmissions :=
                                recv_num_retransmissions r3 + 1\<rparr>)))
      else Inr r)"

subsection \<open>Runs of the sender\<close>

text \<open>
  What can happen to a sender: the application submits a message, the channel hands
  over an acknowledgment, or the wait of a timer elapses. Only a process that is in the
  timer table and has not triggered can make the third happen; for any other sequence
  number the event does not exist and the state stays as it is.
\<close>

datatype event = Send string | Ack packet | Timeout int

definition step :: "sender \<Rightarrow> event \<Rightarrow> error + sender" where
  "step s e =
     (case e of
        Send msg \<Rightarrow> (case rdt_send s msg of Inl err \<Rightarrow> Inl err | Inr (b, s') \<Rightarrow> Inr s')
      | Ack packt \<Rightarrow> rdt_rcv s packt
      | Timeout sn \<Rightarrow>
          (case fmlookup (timers s) sn of
             Some t \<Rightarrow> (if \<not> triggered t then timer_behavior s sn else Inr s)
           | None \<Rightarrow> Inr s))"

fun run :: "sender \<Rightarrow> event list \<Rightarrow> error + sender" where
  "run s [] = Inr s"
| "run s (e # es) = (case step s e of Inl err \<Rightarrow> Inl err | Inr s' \<Rightarrow> run s' es)"

text \<open>
  The acknowledgment the receiver of the constructor's configuration builds for a
  sequence number (line 157 with \<^verbatim>\<open>ack_packet_length = 10\<close>).
\<close>

definition ack_for :: "int \<Rightarrow> packet" where
  "ack_for sn = Packet sn ''ACK'' 10"

text \<open>
  The value of the receiver's base after \<open>i\<close> rounds of its loop: each round assigns
  \<^verbatim>\<open>(base + 1) % K\<close>.
\<close>

fun base_after :: "int \<Rightarrow> int \<Rightarrow> nat \<Rightarrow> int" where
  "base_after b k 0 = b"
| "base_after b k (Suc i) = (base_after b k i + 1) mod k"

text \<open>
  The packet \<^verbatim>\<open>rdt_send\<close> builds under the constructor's
  \<^verbatim>\<open>data_packet_length = 10\<close>.
\<close>

definition data_packet :: "int \<Rightarrow> string \<Rightarrow> packet" where
  "data_packet sn msg = Packet sn msg 10"

text \<open>
  Scenario A of the specification: a sender with window size 4 and modulus 8, fresh
  and after four accepted submissions.
\<close>

definition scenario_A :: sender where
  "scenario_A = init_sender\<lparr>N := 4, K := 8\<rparr>"

definition scenario_A_full :: sender where
  "scenario_A_full =
     projr (run scenario_A [Send ''a'', Send ''b'', Send ''c'', Send ''d''])"

text \<open>
  Scenario B of the specification: packets 1 and 2 have been sent and no acknowledgment
  has come back.
\<close>

definition scenario_B :: sender where
  "scenario_B = projr (run scenario_A [Send ''a'', Send ''b''])"

text \<open>
  Scenario C of the specification: the receiver of the constructor has taken packet 1
  and then packet 3, so packet 2 is the one it is missing.
\<close>

definition scenario_C :: receiver where
  "scenario_C =
     projr (receiver_rdt_rcv
              (projr (receiver_rdt_rcv init_receiver (data_packet 1 ''one'')))
              (data_packet 3 ''three''))"

text \<open>
  A receiver whose window of 4 is smaller than its modulus of 8, with base 2: sequence
  number 1 lies outside its window.
\<close>

definition small_window_receiver :: receiver where
  "small_window_receiver = init_receiver\<lparr>recv_K := 8, receiving_window := 4, recv_base := 2\<rparr>"

section \<open>Properties\<close>

lemmas sender_defs =
  rdt_send_def rdt_rcv_def window_def udt_send_def start_timer_def stop_timer_def
  timeout_action_def timer_behavior_def step_def init_sender_def Packet_def ack_for_def

lemmas receiver_defs =
  receiver_rdt_rcv_def window_def init_receiver_def Packet_def data_packet_def

subsection \<open>Window arithmetic\<close>

text \<open>
  Membership in the window list, for a positive modulus, as arithmetic: a sequence
  number is in the window when it is a residue and its distance from the base, taken
  modulo \<open>k\<close>, is below the window size.
\<close>

lemma in_window_iff:
  fixes x b n k :: int
  assumes "0 < k"
  shows "x \<in> set (map (\<lambda>i. (b + i) mod k) [0..n - 1]) \<longleftrightarrow>
         0 \<le> x \<and> x < k \<and> (x - b) mod k < n"
proof
  assume "x \<in> set (map (\<lambda>i. (b + i) mod k) [0..n - 1])"
  then obtain i where i: "0 \<le> i" "i < n" and x: "x = (b + i) mod k" by auto
  have "(x - b) mod k = i mod k"
    unfolding x by (simp add: mod_diff_left_eq)
  also have "\<dots> \<le> i" using i(1) assms by (simp add: zmod_le_nonneg_dividend)
  finally have "(x - b) mod k < n" using i(2) by simp
  moreover have "0 \<le> x" "x < k" using assms unfolding x by simp_all
  ultimately show "0 \<le> x \<and> x < k \<and> (x - b) mod k < n" by simp
next
  assume a: "0 \<le> x \<and> x < k \<and> (x - b) mod k < n"
  let ?i = "(x - b) mod k"
  have "0 \<le> ?i" using assms by simp
  moreover have "(b + ?i) mod k = x"
    using a by (simp add: mod_add_right_eq)
  ultimately have "?i \<in> {0..n - 1}" "x = (b + ?i) mod k" using a by simp_all
  then show "x \<in> set (map (\<lambda>i. (b + i) mod k) [0..n - 1])" by auto
qed


lemma in_window_image:
  fixes x b m k :: int
  assumes "0 < k"
  shows "x \<in> (\<lambda>i. (b + i) mod k) ` {0..m} \<longleftrightarrow> 0 \<le> x \<and> x < k \<and> (x - b) mod k \<le> m"
  using in_window_iff [OF assms, of x b "m + 1"] by simp


subsection \<open>Submitting data\<close>

text \<open>
  Claim C1. With a modulus other than zero, \<^verbatim>\<open>rdt_send\<close> returns \<^verbatim>\<open>True\<close> exactly
  when \<^verbatim>\<open>nextseqnum\<close> is in the list \<^verbatim>\<open>[(base + i) % K for i in range(0, N)]\<close>.
  When it accepts, it stores a new packet under \<^verbatim>\<open>nextseqnum\<close>, hands that packet to
  the channel, adds one to \<^verbatim>\<open>total_packets_sent\<close>, calls \<^verbatim>\<open>start_timer\<close> for
  \<^verbatim>\<open>nextseqnum\<close> (after which the timer table has an entry for it) and advances
  \<^verbatim>\<open>nextseqnum\<close> by one modulo \<^verbatim>\<open>K\<close>. When it refuses, it returns \<^verbatim>\<open>False\<close> and the
  sender is as it was.
\<close>

theorem rdt_send_accepts_iff_in_window:
  assumes "K s \<noteq> 0"
  shows "(nextseqnum s \<in> set (map (\<lambda>i. (base s + i) mod K s) [0..N s - 1]) \<longrightarrow>
            (\<exists>s'. rdt_send s msg = Inr (True, s') \<and>
               sndpkt s' = fmupd (nextseqnum s)
                             (Packet (nextseqnum s) msg (data_packet_length s)) (sndpkt s) \<and>
               channel s' = channel s @ [Packet (nextseqnum s) msg (data_packet_length s)] \<and>
               total_packets_sent s' = total_packets_sent s + 1 \<and>
               timers s' = timers (start_timer s (nextseqnum s)) \<and>
               nextseqnum s \<in> fmdom' (timers s') \<and>
               nextseqnum s' = (nextseqnum s + 1) mod K s \<and>
               base s' = base s \<and> acknowledged s' = acknowledged s \<and>
               num_retransmissions s' = num_retransmissions s \<and>
               N s' = N s \<and> K s' = K s)) \<and>
         (nextseqnum s \<notin> set (map (\<lambda>i. (base s + i) mod K s) [0..N s - 1]) \<longrightarrow>
            rdt_send s msg = Inr (False, s))"
  using assms
  by (simp add: rdt_send_def window_def udt_send_def start_timer_def Let_def)


text \<open>Scenario A: four submissions fill the window of 4; the fifth is refused.\<close>

lemma scenario_A_full_state:
  "scenario_A_full =
     scenario_A\<lparr>channel := [data_packet 1 ''a'', data_packet 2 ''b'',
                              data_packet 3 ''c'', data_packet 4 ''d''],
                 nextseqnum := 5,
                 sndpkt := fmupd 4 (data_packet 4 ''d'') (fmupd 3 (data_packet 3 ''c'')
                            (fmupd 2 (data_packet 2 ''b'')
                              (fmupd 1 (data_packet 1 ''a'') fmempty))),
                 total_packets_sent := 4,
                 timers := fmupd 4 (Process False) (fmupd 3 (Process False)
                            (fmupd 2 (Process False) (fmupd 1 (Process False) fmempty))),
                 timer_is_running := True\<rparr>"
  by (simp add: scenario_A_full_def scenario_A_def sender_defs data_packet_def)

theorem rdt_send_accepts_iff_in_window_witness:
  "K scenario_A \<noteq> 0 \<and>
   nextseqnum scenario_A \<in> set (map (\<lambda>i. (base scenario_A + i) mod K scenario_A)
                                    [0..N scenario_A - 1]) \<and>
   (\<exists>s'. rdt_send scenario_A ''a'' = Inr (True, s') \<and>
          channel s' = [data_packet 1 ''a''] \<and> total_packets_sent s' = 1 \<and>
          nextseqnum s' = 2 \<and> 1 \<in> fmdom' (timers s')) \<and>
   K scenario_A_full \<noteq> 0 \<and>
   nextseqnum scenario_A_full \<notin> set (map (\<lambda>i. (base scenario_A_full + i) mod K scenario_A_full)
                                         [0..N scenario_A_full - 1]) \<and>
   rdt_send scenario_A_full ''e'' = Inr (False, scenario_A_full)"
proof -
  have k: "K scenario_A \<noteq> 0" by (simp add: scenario_A_def)
  have inw: "nextseqnum scenario_A \<in> set (map (\<lambda>i. (base scenario_A + i) mod K scenario_A)
                                    [0..N scenario_A - 1])"
    by (simp add: scenario_A_def init_sender_def)
  have k': "K scenario_A_full \<noteq> 0" by (simp add: scenario_A_full_state scenario_A_def)
  have out: "nextseqnum scenario_A_full \<notin>
               set (map (\<lambda>i. (base scenario_A_full + i) mod K scenario_A_full)
                        [0..N scenario_A_full - 1])"
    by (simp add: scenario_A_full_state scenario_A_def init_sender_def)
  from rdt_send_accepts_iff_in_window [OF k, of "''a''"] inw
  obtain s' where "rdt_send scenario_A ''a'' = Inr (True, s')"
    "channel s' = channel scenario_A @
       [Packet (nextseqnum scenario_A) ''a'' (data_packet_length scenario_A)]"
    "total_packets_sent s' = total_packets_sent scenario_A + 1"
    "nextseqnum s' = (nextseqnum scenario_A + 1) mod K scenario_A"
    "nextseqnum scenario_A \<in> fmdom' (timers s')"
    by blast
  then have acc: "\<exists>s'. rdt_send scenario_A ''a'' = Inr (True, s') \<and>
          channel s' = [data_packet 1 ''a''] \<and> total_packets_sent s' = 1 \<and>
          nextseqnum s' = 2 \<and> 1 \<in> fmdom' (timers s')"
    by (simp add: scenario_A_def init_sender_def data_packet_def)
  from rdt_send_accepts_iff_in_window [OF k', of "''e''"] out
  have "rdt_send scenario_A_full ''e'' = Inr (False, scenario_A_full)" by blast
  with k inw acc k' out show ?thesis by blast
qed

subsection \<open>Timer anomalies\<close>

text \<open>
  Claim C9. Starting a timer for a sequence number that already has an entry in the
  timer table returns with the sender as it was, so the entry keeps the process it
  had; stopping a timer for a sequence number without an entry returns with the sender
  as it was. Both functions are total: neither call has a raising path.
\<close>

theorem timer_anomalies_are_noops:
  "(sn \<in> fmdom' (timers s) \<longrightarrow> start_timer s sn = s) \<and>
   (sn \<notin> fmdom' (timers s) \<longrightarrow> stop_timer s sn = s)"
  by (auto simp: start_timer_def stop_timer_def split: option.splits)

theorem timer_anomalies_are_noops_witness:
  "(1 \<in> fmdom' (timers (start_timer init_sender 1)) \<and>
    start_timer (start_timer init_sender 1) 1 = start_timer init_sender 1) \<and>
   (2 \<notin> fmdom' (timers (start_timer init_sender 1)) \<and>
    stop_timer (start_timer init_sender 1) 2 = start_timer init_sender 1)"
proof -
  have in1: "1 \<in> fmdom' (timers (start_timer init_sender 1))"
    by (simp add: start_timer_def init_sender_def)
  have out2: "2 \<notin> fmdom' (timers (start_timer init_sender 1))"
    by (simp add: start_timer_def init_sender_def)
  from in1 out2
    timer_anomalies_are_noops [of 1 "start_timer init_sender 1"]
    timer_anomalies_are_noops [of 2 "start_timer init_sender 1"]
  show ?thesis by blast
qed

subsection \<open>Corrupted input\<close>

text \<open>
  Claim C6. A corrupted acknowledgment leaves the sender exactly as it was, and a
  corrupted packet leaves the receiver exactly as it was: nothing is handed to the
  channel (so no acknowledgment is sent), nothing is buffered or delivered, no counter
  and no base moves.
\<close>

theorem corrupted_input_is_dropped:
  "corrupted packt \<Longrightarrow> rdt_rcv s packt = Inr s \<and> receiver_rdt_rcv r packt = Inr r"
  by (simp add: rdt_rcv_def receiver_rdt_rcv_def)

theorem corrupted_input_is_dropped_witness:
  "corrupted ((ack_for 1)\<lparr>corrupted := True\<rparr>) \<and>
   rdt_rcv init_sender ((ack_for 1)\<lparr>corrupted := True\<rparr>) = Inr init_sender \<and>
   receiver_rdt_rcv init_receiver ((ack_for 1)\<lparr>corrupted := True\<rparr>) = Inr init_receiver"
  using corrupted_input_is_dropped
          [of "(ack_for 1)\<lparr>corrupted := True\<rparr>" init_sender init_receiver]
  by simp

subsection \<open>The receiver's loop\<close>

text \<open>With a modulus other than zero the loop returns, and it touches only the
  application, the buffer and the base.\<close>

lemma deliver_loop_frame:
  "recv_K r \<noteq> 0 \<Longrightarrow>
   \<exists>r'. deliver_loop r = Inr r' \<and> recv_channel r' = recv_channel r \<and>
        recv_total_packets_sent r' = recv_total_packets_sent r \<and>
        recv_num_retransmissions r' = recv_num_retransmissions r \<and>
        recv_sndpkt r' = recv_sndpkt r \<and> recv_K r' = recv_K r \<and>
        receiving_window r' = receiving_window r \<and>
        ack_packet_length r' = ack_packet_length r \<and>
        expectedseqnum r' = expectedseqnum r"
proof (induction r rule: deliver_loop.induct)
  case (1 r)
  show ?case
  proof (cases "fmlookup (received_packets r) (recv_base r)")
    case None
    then show ?thesis by (simp add: deliver_loop.simps)
  next
    case (Some p)
    with "1.prems" "1.IH" [of p] show ?thesis
      by (subst deliver_loop.simps) simp
  qed
qed

lemma base_after_shift:
  "base_after ((b + 1) mod k) k i = base_after b k (Suc i)"
  by (induction i) simp_all

text \<open>
  What the loop has done when it returns after \<open>n\<close> rounds: the bases it went through
  were all in the buffer, their payloads went to the application in that order, their
  entries are gone, and the base it stopped at is not in the buffer.
\<close>

lemma deliver_loop_result:
  "recv_K r \<noteq> 0 \<Longrightarrow>
   \<exists>n r'. deliver_loop r = Inr r' \<and>
     (\<forall>i<n. base_after (recv_base r) (recv_K r) i \<in> fmdom' (received_packets r)) \<and>
     receiving_app r' = receiving_app r @
        map (\<lambda>i. payload (the (fmlookup (received_packets r)
                                  (base_after (recv_base r) (recv_K r) i)))) [0..<n] \<and>
     received_packets r' =
        fmdrop_set ((\<lambda>i. base_after (recv_base r) (recv_K r) i) ` {..<n}) (received_packets r) \<and>
     recv_base r' = base_after (recv_base r) (recv_K r) n \<and>
     recv_base r' \<notin> fmdom' (received_packets r')"
proof (induction r rule: deliver_loop.induct)
  case (1 r)
  let ?b = "recv_base r" and ?k = "recv_K r" and ?buf = "received_packets r"
  show ?case
  proof (cases "fmlookup ?buf ?b")
    case None
    then have "deliver_loop r = Inr r" by (simp add: deliver_loop.simps)
    moreover from None have "?b \<notin> fmdom' ?buf" by (simp add: fmdom'_notI)
    ultimately show ?thesis
      by (intro exI [of _ 0] exI [of _ r]) simp
  next
    case (Some p)
    let ?r1 = "r\<lparr>receiving_app := receiving_app r @ [payload p],
                   received_packets := fmdrop ?b ?buf,
                   recv_base := (?b + 1) mod ?k\<rparr>"
    from Some "1.prems" have unfold: "deliver_loop r = deliver_loop ?r1"
      by (subst deliver_loop.simps) simp
    from "1.IH" [OF Some] "1.prems"
    obtain n r' where res: "deliver_loop ?r1 = Inr r'"
      and present: "\<forall>i<n. base_after ((?b + 1) mod ?k) ?k i \<in> fmdom' (fmdrop ?b ?buf)"
      and app: "receiving_app r' = (receiving_app r @ [payload p]) @
                  map (\<lambda>i. payload (the (fmlookup (fmdrop ?b ?buf)
                                  (base_after ((?b + 1) mod ?k) ?k i)))) [0..<n]"
      and buf: "received_packets r' =
                  fmdrop_set ((\<lambda>i. base_after ((?b + 1) mod ?k) ?k i) ` {..<n}) (fmdrop ?b ?buf)"
      and bas: "recv_base r' = base_after ((?b + 1) mod ?k) ?k n"
      and stop: "recv_base r' \<notin> fmdom' (received_packets r')"
      by auto
    have shift: "\<And>i. base_after ((?b + 1) mod ?k) ?k i = base_after ?b ?k (Suc i)"
      by (rule base_after_shift)
    have later: "\<forall>i<n. base_after ?b ?k (Suc i) \<in> fmdom' ?buf \<and> base_after ?b ?k (Suc i) \<noteq> ?b"
      using present unfolding shift by simp
    have c1: "\<forall>i<Suc n. base_after ?b ?k i \<in> fmdom' ?buf"
    proof (intro allI impI)
      fix i assume "i < Suc n"
      show "base_after ?b ?k i \<in> fmdom' ?buf"
      proof (cases i)
        case 0
        with Some show ?thesis by (simp add: fmdom'I)
      next
        case (Suc j)
        with \<open>i < Suc n\<close> later show ?thesis by simp
      qed
    qed
    have same: "map (\<lambda>i. payload (the (fmlookup (fmdrop ?b ?buf) (base_after ?b ?k (Suc i))))) [0..<n]
              = map (\<lambda>i. payload (the (fmlookup ?buf (base_after ?b ?k (Suc i))))) [0..<n]"
      using later by (intro map_cong) simp_all
    have c2: "receiving_app r' = receiving_app r @
        map (\<lambda>i. payload (the (fmlookup ?buf (base_after ?b ?k i)))) [0..<Suc n]"
    proof -
      have "map (\<lambda>i. payload (the (fmlookup ?buf (base_after ?b ?k i)))) [0..<Suc n]
            = payload p # map (\<lambda>i. payload (the (fmlookup ?buf (base_after ?b ?k (Suc i))))) [0..<n]"
        using Some by (simp add: upt_conv_Cons map_Suc_upt [symmetric] del: upt_Suc)
      with app same show ?thesis unfolding shift by simp
    qed
    have c3: "received_packets r' = fmdrop_set ((\<lambda>i. base_after ?b ?k i) ` {..<Suc n}) ?buf"
    proof -
      have "(\<lambda>i. base_after ?b ?k i) ` {..<Suc n}
            = insert ?b ((\<lambda>i. base_after ?b ?k (Suc i)) ` {..<n})"
        by (simp add: lessThan_Suc_eq_insert_0 image_image)
      with buf show ?thesis unfolding shift by simp
    qed
    have c4: "recv_base r' = base_after ?b ?k (Suc n)"
      using bas unfolding shift .
    from unfold res c1 c2 c3 c4 stop show ?thesis
      by (intro exI [of _ "Suc n"] exI [of _ r']) simp
  qed
qed


subsection \<open>The receiver\<close>

text \<open>
  Claim C2. An uncorrupted packet whose sequence number is in the receive window is
  stored in the buffer under its sequence number (replacing what was there), and then
  the loop runs on the buffer so updated: for some number \<open>n\<close> of rounds, the bases
  \<open>base\<close>, \<open>(base + 1) mod K\<close>, ... it went through were all present, their payloads
  were appended to the application's deliveries in that order, their entries were
  removed, the base ends at the \<open>n\<close>-th successor and that one is not in the buffer.
  The modulus is taken to be other than zero.
\<close>

theorem in_window_packet_is_buffered_and_delivered_in_order:
  assumes "\<not> corrupted packt" and "recv_K r \<noteq> 0"
    and "seq_num packt \<in> set (map (\<lambda>i. (recv_base r + i) mod recv_K r)
                                   [0..receiving_window r - 1])"
  shows "\<exists>n r'. receiver_rdt_rcv r packt = Inr r' \<and>
           (\<forall>i<n. base_after (recv_base r) (recv_K r) i
                    \<in> fmdom' (fmupd (seq_num packt) packt (received_packets r))) \<and>
           receiving_app r' = receiving_app r @
             map (\<lambda>i. payload (the (fmlookup (fmupd (seq_num packt) packt (received_packets r))
                                       (base_after (recv_base r) (recv_K r) i)))) [0..<n] \<and>
           received_packets r' =
             fmdrop_set ((\<lambda>i. base_after (recv_base r) (recv_K r) i) ` {..<n})
                        (fmupd (seq_num packt) packt (received_packets r)) \<and>
           recv_base r' = base_after (recv_base r) (recv_K r) n \<and>
           recv_base r' \<notin> fmdom' (received_packets r')"
proof -
  let ?r4 = "r\<lparr>recv_sndpkt := Packet (seq_num packt) ''ACK'' (ack_packet_length r),
                 recv_channel := recv_channel r @
                   [Packet (seq_num packt) ''ACK'' (ack_packet_length r)],
                 recv_total_packets_sent := recv_total_packets_sent r + 1,
                 received_packets := fmupd (seq_num packt) packt (received_packets r)\<rparr>"
  from assms have "receiver_rdt_rcv r packt = deliver_loop ?r4"
    by (simp add: receiver_rdt_rcv_def window_def)
  moreover from assms(2) have "recv_K ?r4 \<noteq> 0" by simp
  from deliver_loop_result [OF this] obtain n r' where
    "deliver_loop ?r4 = Inr r'"
    "\<forall>i<n. base_after (recv_base r) (recv_K r) i
              \<in> fmdom' (fmupd (seq_num packt) packt (received_packets r))"
    "receiving_app r' = receiving_app r @
       map (\<lambda>i. payload (the (fmlookup (fmupd (seq_num packt) packt (received_packets r))
                                 (base_after (recv_base r) (recv_K r) i)))) [0..<n]"
    "received_packets r' =
       fmdrop_set ((\<lambda>i. base_after (recv_base r) (recv_K r) i) ` {..<n})
                  (fmupd (seq_num packt) packt (received_packets r))"
    "recv_base r' = base_after (recv_base r) (recv_K r) n"
    "recv_base r' \<notin> fmdom' (received_packets r')"
    by auto
  ultimately show ?thesis by (intro exI [of _ n] exI [of _ r']) simp
qed

text \<open>
  Scenario C: packet 3 arrived before packet 2 and is buffered, with only packet 1
  delivered. When packet 2 arrives, 2 and 3 are delivered in that order in the one
  call.
\<close>

lemma scenario_C_state:
  "scenario_C =
     init_receiver\<lparr>recv_channel := [ack_for 1, ack_for 3], receiving_app := [''one''],
                   recv_base := 2, recv_sndpkt := ack_for 3, recv_total_packets_sent := 2,
                   received_packets := fmupd 3 (data_packet 3 ''three'') fmempty\<rparr>"
  by (simp add: scenario_C_def receiver_defs ack_for_def deliver_loop.simps in_window_image
        fmdrop_fmupd)

theorem in_window_packet_is_buffered_and_delivered_in_order_witness:
  "\<not> corrupted (data_packet 2 ''two'') \<and> recv_K scenario_C \<noteq> 0 \<and>
   seq_num (data_packet 2 ''two'')
     \<in> set (map (\<lambda>i. (recv_base scenario_C + i) mod recv_K scenario_C)
                 [0..receiving_window scenario_C - 1]) \<and>
   receiving_app scenario_C = [''one''] \<and>
   (\<exists>r'. receiver_rdt_rcv scenario_C (data_packet 2 ''two'') = Inr r' \<and>
          receiving_app r' = [''one'', ''two'', ''three''] \<and>
          recv_base r' = 4 \<and> recv_base r' \<notin> fmdom' (received_packets r'))"
proof -
  let ?p = "data_packet 2 ''two''"
  have h1: "\<not> corrupted ?p" by (simp add: data_packet_def Packet_def)
  have h2: "recv_K scenario_C \<noteq> 0" by (simp add: scenario_C_state init_receiver_def)
  have h3: "seq_num ?p \<in> set (map (\<lambda>i. (recv_base scenario_C + i) mod recv_K scenario_C)
                                  [0..receiving_window scenario_C - 1])"
    by (simp add: scenario_C_state init_receiver_def data_packet_def Packet_def
          in_window_image)
  have h4: "receiving_app scenario_C = [''one'']" by (simp add: scenario_C_state)
  from in_window_packet_is_buffered_and_delivered_in_order [OF h1 h2 h3]
  obtain n r' where res: "receiver_rdt_rcv scenario_C ?p = Inr r'"
    and bas: "recv_base r' = base_after (recv_base scenario_C) (recv_K scenario_C) n"
    and stop: "recv_base r' \<notin> fmdom' (received_packets r')"
    by blast
  have eval: "receiver_rdt_rcv scenario_C ?p =
        Inr (scenario_C\<lparr>recv_channel := [ack_for 1, ack_for 3, ack_for 2],
                         receiving_app := [''one'', ''two'', ''three''],
                         recv_base := 4, recv_sndpkt := ack_for 2,
                         recv_total_packets_sent := 3, received_packets := fmempty\<rparr>)"
    by (simp add: scenario_C_state receiver_defs ack_for_def deliver_loop.simps
          fmdrop_fmupd in_window_image)
  with res stop have "receiving_app r' = [''one'', ''two'', ''three''] \<and> recv_base r' = 4 \<and>
      recv_base r' \<notin> fmdom' (received_packets r')"
    by auto
  with h1 h2 h3 h4 res show ?thesis by blast
qed

text \<open>
  Claim C8. For an uncorrupted packet the receiver hands the channel an acknowledgment
  carrying the packet's sequence number and counts it in \<^verbatim>\<open>total_packets_sent\<close>, in
  the window or not. Outside the window nothing else happens but the increment of
  \<^verbatim>\<open>num_retransmissions\<close>: the buffer, the deliveries and the base stay as they
  were (the attribute \<^verbatim>\<open>sndpkt\<close> holds the acknowledgment just sent). The modulus
  is taken to be other than zero.
\<close>

theorem every_intact_packet_is_acknowledged:
  assumes "\<not> corrupted packt" and "recv_K r \<noteq> 0"
  shows "\<exists>r'. receiver_rdt_rcv r packt = Inr r' \<and>
           recv_channel r' = recv_channel r @
             [Packet (seq_num packt) ''ACK'' (ack_packet_length r)] \<and>
           recv_total_packets_sent r' = recv_total_packets_sent r + 1 \<and>
           (seq_num packt \<notin> set (map (\<lambda>i. (recv_base r + i) mod recv_K r)
                                      [0..receiving_window r - 1]) \<longrightarrow>
              r' = r\<lparr>recv_sndpkt := Packet (seq_num packt) ''ACK'' (ack_packet_length r),
                      recv_channel := recv_channel r @
                        [Packet (seq_num packt) ''ACK'' (ack_packet_length r)],
                      recv_total_packets_sent := recv_total_packets_sent r + 1,
                      recv_num_retransmissions := recv_num_retransmissions r + 1\<rparr>)"
proof (cases "seq_num packt \<in> set (map (\<lambda>i. (recv_base r + i) mod recv_K r)
                                      [0..receiving_window r - 1])")
  case True
  let ?r4 = "r\<lparr>recv_sndpkt := Packet (seq_num packt) ''ACK'' (ack_packet_length r),
                 recv_channel := recv_channel r @
                   [Packet (seq_num packt) ''ACK'' (ack_packet_length r)],
                 recv_total_packets_sent := recv_total_packets_sent r + 1,
                 received_packets := fmupd (seq_num packt) packt (received_packets r)\<rparr>"
  from assms True have "receiver_rdt_rcv r packt = deliver_loop ?r4"
    by (simp add: receiver_rdt_rcv_def window_def)
  moreover from assms(2) have "recv_K ?r4 \<noteq> 0" by simp
  from deliver_loop_frame [OF this] obtain r' where
    "deliver_loop ?r4 = Inr r'" "recv_channel r' = recv_channel ?r4"
    "recv_total_packets_sent r' = recv_total_packets_sent ?r4"
    by auto
  ultimately show ?thesis using True by simp
next
  case False
  with assms show ?thesis
    by (simp add: receiver_rdt_rcv_def window_def)
qed

theorem every_intact_packet_is_acknowledged_witness:
  "\<not> corrupted (data_packet 1 ''one'') \<and> recv_K small_window_receiver \<noteq> 0 \<and>
   seq_num (data_packet 1 ''one'')
     \<notin> set (map (\<lambda>i. (recv_base small_window_receiver + i) mod recv_K small_window_receiver)
                 [0..receiving_window small_window_receiver - 1]) \<and>
   receiver_rdt_rcv small_window_receiver (data_packet 1 ''one'') =
     Inr (small_window_receiver\<lparr>recv_sndpkt := ack_for 1, recv_channel := [ack_for 1],
                                 recv_total_packets_sent := 1,
                                 recv_num_retransmissions := 1\<rparr>)"
proof -
  let ?p = "data_packet 1 ''one''" and ?r = small_window_receiver
  have h1: "\<not> corrupted ?p" by (simp add: data_packet_def Packet_def)
  have h2: "recv_K ?r \<noteq> 0" by (simp add: small_window_receiver_def)
  have h3: "seq_num ?p \<notin> set (map (\<lambda>i. (recv_base ?r + i) mod recv_K ?r)
                                  [0..receiving_window ?r - 1])"
    by (simp add: small_window_receiver_def init_receiver_def data_packet_def Packet_def)
  from every_intact_packet_is_acknowledged [OF h1 h2] h3
  have "receiver_rdt_rcv ?r ?p =
          Inr (?r\<lparr>recv_sndpkt := Packet (seq_num ?p) ''ACK'' (ack_packet_length ?r),
                  recv_channel := recv_channel ?r @
                     [Packet (seq_num ?p) ''ACK'' (ack_packet_length ?r)],
                  recv_total_packets_sent := recv_total_packets_sent ?r + 1,
                  recv_num_retransmissions := recv_num_retransmissions ?r + 1\<rparr>)"
    by blast
  then have "receiver_rdt_rcv ?r ?p =
     Inr (?r\<lparr>recv_sndpkt := ack_for 1, recv_channel := [ack_for 1],
             recv_total_packets_sent := 1, recv_num_retransmissions := 1\<rparr>)"
    by (simp add: small_window_receiver_def init_receiver_def data_packet_def Packet_def
          ack_for_def)
  with h1 h2 h3 show ?thesis by blast
qed

subsection \<open>What the sender's operations leave alone\<close>

text \<open>
  The loop of \<^verbatim>\<open>rdt_rcv\<close> changes \<^verbatim>\<open>acknowledged\<close> and \<^verbatim>\<open>base\<close> only; in
  particular it never deletes from \<^verbatim>\<open>sndpkt\<close>.
\<close>

lemma rdt_rcv_loop_frame:
  "rdt_rcv_loop s = Inr s' \<Longrightarrow>
   N s' = N s \<and> K s' = K s \<and> nextseqnum s' = nextseqnum s \<and> sndpkt s' = sndpkt s \<and>
   timers s' = timers s \<and> channel s' = channel s \<and>
   total_packets_sent s' = total_packets_sent s \<and>
   num_retransmissions s' = num_retransmissions s"
proof (induction s rule: rdt_rcv_loop.induct)
  case (1 s)
  show ?case
  proof (cases "fmlookup (acknowledged s) (base s) = Some True")
    case False
    with "1.prems" show ?thesis by (simp add: rdt_rcv_loop.simps)
  next
    case True
    show ?thesis
    proof (cases "K s = 0")
      case True
      with \<open>fmlookup (acknowledged s) (base s) = Some True\<close> "1.prems" show ?thesis
        by (simp add: rdt_rcv_loop.simps)
    next
      case False
      with True "1.prems"
      have "rdt_rcv_loop (s\<lparr>acknowledged := fmdrop (base s) (acknowledged s),
                               base := (base s + 1) mod K s\<rparr>) = Inr s'"
        by (subst (asm) rdt_rcv_loop.simps) simp
      from "1.IH" [OF True False this] show ?thesis by simp
    qed
  qed
qed

lemma rdt_rcv_frame:
  assumes "rdt_rcv s packt = Inr s'"
  shows "N s' = N s \<and> K s' = K s \<and> nextseqnum s' = nextseqnum s \<and> sndpkt s' = sndpkt s \<and>
         channel s' = channel s \<and> total_packets_sent s' = total_packets_sent s \<and>
         num_retransmissions s' = num_retransmissions s \<and>
         timers s' = (if \<not> corrupted packt \<and> seq_num packt \<in> fmdom' (sndpkt s)
                      then timers (stop_timer s (seq_num packt)) else timers s)"
proof (cases "\<not> corrupted packt \<and> seq_num packt \<in> fmdom' (sndpkt s)")
  case False
  with assms show ?thesis by (auto simp: rdt_rcv_def split: if_splits)
next
  case True
  let ?s2 = "stop_timer (s\<lparr>acknowledged := fmupd (seq_num packt) True (acknowledged s)\<rparr>)
               (seq_num packt)"
  from True assms have "rdt_rcv_loop ?s2 = Inr s'" by (simp add: rdt_rcv_def)
  from rdt_rcv_loop_frame [OF this] True show ?thesis
    by (simp add: stop_timer_def split: option.splits)
qed

lemma timeout_action_frame:
  assumes "timeout_action s sn = Inr s'"
  shows "N s' = N s \<and> K s' = K s \<and> nextseqnum s' = nextseqnum s \<and> sndpkt s' = sndpkt s \<and>
         base s' = base s \<and> acknowledged s' = acknowledged s"
  using assms
  by (auto simp: timeout_action_def udt_send_def start_timer_def Let_def split: if_splits)

lemma timer_behavior_frame:
  assumes "timer_behavior s sn = Inr s'"
  shows "N s' = N s \<and> K s' = K s \<and> nextseqnum s' = nextseqnum s \<and> sndpkt s' = sndpkt s \<and>
         base s' = base s \<and> acknowledged s' = acknowledged s"
proof -
  from assms obtain s1 where "timeout_action (s\<lparr>timer_is_running := False\<rparr>) sn = Inr s1"
    and "s' = (if sn \<in> fmdom' (sndpkt s) then s1
               else s1\<lparr>timers := fmupd sn (Process True) (timers s1)\<rparr>)"
    by (auto simp: timer_behavior_def split: sum.splits)
  with timeout_action_frame [OF this(1)] show ?thesis by simp
qed

subsection \<open>The constructor's configuration\<close>

text \<open>
  No operation assigns \<^verbatim>\<open>N\<close> or \<^verbatim>\<open>K\<close>, and \<^verbatim>\<open>nextseqnum\<close> is only ever
  assigned a residue modulo \<^verbatim>\<open>K\<close>.
\<close>

lemma default_step:
  assumes "N s = 16" "K s = 16" "0 \<le> nextseqnum s" "nextseqnum s < 16"
    and "step s e = Inr s'"
  shows "N s' = 16 \<and> K s' = 16 \<and> 0 \<le> nextseqnum s' \<and> nextseqnum s' < 16"
proof (cases e)
  case (Send msg)
  with assms show ?thesis
    by (auto simp: step_def rdt_send_def window_def udt_send_def start_timer_def Let_def
             split: sum.splits if_splits)
next
  case (Ack packt)
  with assms rdt_rcv_frame [of s packt s'] show ?thesis by (simp add: step_def)
next
  case (Timeout sn)
  with assms timer_behavior_frame [of s sn s'] show ?thesis
    by (auto simp: step_def split: option.splits if_splits)
qed

lemma default_run:
  "N s = 16 \<Longrightarrow> K s = 16 \<Longrightarrow> 0 \<le> nextseqnum s \<Longrightarrow> nextseqnum s < 16 \<Longrightarrow>
   run s es = Inr s' \<Longrightarrow>
   N s' = 16 \<and> K s' = 16 \<and> 0 \<le> nextseqnum s' \<and> nextseqnum s' < 16"
proof (induction es arbitrary: s)
  case Nil
  then show ?case by simp
next
  case (Cons e es)
  from Cons.prems(5) obtain s1 where s1: "step s e = Inr s1" and rest: "run s1 es = Inr s'"
    by (auto split: sum.splits)
  from default_step [OF Cons.prems(1-4) s1] Cons.IH [OF _ _ _ _ rest] show ?case by blast
qed

lemma default_window_holds_all:
  fixes x b :: int
  assumes "0 \<le> x" "x < 16"
  shows "x \<in> set (map (\<lambda>i. (b + i) mod 16) [0..16 - 1])"
proof -
  have "(x - b) mod 16 < 16" by simp
  with assms show ?thesis by (subst in_window_iff) simp_all
qed

text \<open>
  Claim C10. Under the constructor's \<^verbatim>\<open>N = 16\<close> and \<^verbatim>\<open>K = 16\<close> the window list
  holds every sequence number \<open>0, ..., 15\<close> whatever the base; in every state a run of
  submissions, acknowledgments and timeouts reaches from the constructor's state,
  \<^verbatim>\<open>rdt_send\<close> returns \<^verbatim>\<open>True\<close>; and \<open>K \<ge> 2N\<close> does not hold.
\<close>

theorem default_configuration_never_refuses:
  "(\<forall>b x. 0 \<le> x \<and> x < K init_sender \<longrightarrow>
      (\<exists>w. window b (N init_sender) (K init_sender) = Inr w \<and> x \<in> set w)) \<and>
   (\<forall>es s msg. run init_sender es = Inr s \<longrightarrow> (\<exists>s'. rdt_send s msg = Inr (True, s'))) \<and>
   \<not> 2 * N init_sender \<le> K init_sender"
proof (intro conjI allI impI)
  fix b x :: int
  assume "0 \<le> x \<and> x < K init_sender"
  then have "x \<in> set (map (\<lambda>i. (b + i) mod 16) [0..16 - 1])"
    by (intro default_window_holds_all) (simp_all add: init_sender_def)
  then show "\<exists>w. window b (N init_sender) (K init_sender) = Inr w \<and> x \<in> set w"
    by (simp add: window_def init_sender_def)
next
  fix es s msg
  assume "run init_sender es = Inr s"
  with default_run [of init_sender es s]
  have inv: "N s = 16" "K s = 16" "0 \<le> nextseqnum s" "nextseqnum s < 16"
    by (simp_all add: init_sender_def)
  from default_window_holds_all [OF inv(3,4), of "base s"] inv(1,2)
  show "\<exists>s'. rdt_send s msg = Inr (True, s')"
    by (simp add: rdt_send_def window_def Let_def)
next
  show "\<not> 2 * N init_sender \<le> K init_sender" by (simp add: init_sender_def)
qed

text \<open>Sixteen submissions without one acknowledgment, and the seventeenth is accepted.\<close>

theorem default_configuration_never_refuses_witness:
  "(0 \<le> (0::int) \<and> 0 < K init_sender \<and>
      (\<exists>w. window 1 (N init_sender) (K init_sender) = Inr w \<and> 0 \<in> set w)) \<and>
   (\<exists>s. run init_sender (replicate 16 (Send ''m'')) = Inr s \<and>
        total_packets_sent s = 16 \<and> nextseqnum s = 1 \<and>
        (\<exists>s'. rdt_send s ''m'' = Inr (True, s')))"
proof -
  have k: "0 \<le> (0::int) \<and> 0 < K init_sender" by (simp add: init_sender_def)
  have r: "\<exists>s. run init_sender (replicate 16 (Send ''m'')) = Inr s \<and>
        total_packets_sent s = 16 \<and> nextseqnum s = 1"
    by (simp add: sender_defs in_window_image numeral_eq_Suc) 
  then obtain s where s: "run init_sender (replicate 16 (Send ''m'')) = Inr s"
    "total_packets_sent s = 16 \<and> nextseqnum s = 1" by blast
  from default_configuration_never_refuses k s show ?thesis by blast
qed

subsection \<open>Timeouts\<close>

text \<open>
  A timer enters the table in \<^verbatim>\<open>start_timer\<close> only, which \<^verbatim>\<open>rdt_send\<close> calls after
  it has stored the packet and \<^verbatim>\<open>timeout_action\<close> calls after it has deleted the
  entry it replaces; \<^verbatim>\<open>rdt_rcv\<close> deletes the entry of the sequence number it
  acknowledges. So along a run every entry of the table holds a process that has not
  triggered, for a sequence number that is in \<^verbatim>\<open>sndpkt\<close>; and one step keeps an
  entry only if it was not an uncorrupted acknowledgment for that sequence number.
\<close>

lemma run_snoc:
  "run s (es @ [e]) = (case run s es of Inl err \<Rightarrow> Inl err | Inr s' \<Rightarrow> step s' e)"
  by (induction es arbitrary: s) (auto split: sum.splits)

lemma rdt_send_cases:
  assumes "rdt_send s msg = Inr (b, s')"
  shows "(b \<and> s' = (start_timer
                      (s\<lparr>sndpkt := fmupd (nextseqnum s)
                                      (Packet (nextseqnum s) msg (data_packet_length s))
                                      (sndpkt s),
                          channel := channel s @
                            [Packet (nextseqnum s) msg (data_packet_length s)],
                          total_packets_sent := total_packets_sent s + 1\<rparr>)
                      (nextseqnum s))\<lparr>nextseqnum := (nextseqnum s + 1) mod K s\<rparr>)
         \<or> (\<not> b \<and> s' = s)"
  using assms
  by (auto simp: rdt_send_def udt_send_def start_timer_def Let_def
           split: sum.splits if_splits)

lemma step_timers:
  assumes inv: "\<And>sn t. fmlookup (timers s) sn = Some t \<Longrightarrow>
                         \<not> triggered t \<and> sn \<in> fmdom' (sndpkt s)"
    and st: "step s e = Inr s'"
    and tm: "fmlookup (timers s') sn = Some t"
  shows "\<not> triggered t \<and> sn \<in> fmdom' (sndpkt s') \<and>
         ((\<exists>msg s''. e = Send msg \<and> nextseqnum s = sn \<and> rdt_send s msg = Inr (True, s''))
          \<or> ((\<exists>t0. fmlookup (timers s) sn = Some t0) \<and>
              (\<forall>p. e = Ack p \<longrightarrow> corrupted p \<or> seq_num p \<noteq> sn)))"
proof (cases e)
  case (Send msg)
  with st obtain b where snd: "rdt_send s msg = Inr (b, s')"
    by (auto simp: step_def split: sum.splits)
  from rdt_send_cases [OF snd] show ?thesis
  proof (elim disjE conjE)
    assume b and s': "s' = (start_timer
                      (s\<lparr>sndpkt := fmupd (nextseqnum s)
                                      (Packet (nextseqnum s) msg (data_packet_length s))
                                      (sndpkt s),
                          channel := channel s @
                            [Packet (nextseqnum s) msg (data_packet_length s)],
                          total_packets_sent := total_packets_sent s + 1\<rparr>)
                      (nextseqnum s))\<lparr>nextseqnum := (nextseqnum s + 1) mod K s\<rparr>"
    show ?thesis
    proof (cases "sn = nextseqnum s")
      case True
      with tm s' inv [of sn t] have "\<not> triggered t"
        by (auto simp: start_timer_def fmlookup_dom'_iff split: if_splits)
      moreover from True s' have "sn \<in> fmdom' (sndpkt s')"
        by (simp add: start_timer_def)
      moreover from snd \<open>b\<close> True Send
      have "\<exists>msg s''. e = Send msg \<and> nextseqnum s = sn \<and> rdt_send s msg = Inr (True, s'')"
        by auto
      ultimately show ?thesis by blast
    next
      case False
      with tm s' have old: "fmlookup (timers s) sn = Some t"
        by (auto simp: start_timer_def split: if_splits)
      with inv [OF old] s' Send show ?thesis
        by (auto simp: start_timer_def)
    qed
  next
    assume "\<not> b" and "s' = s"
    with tm inv [of sn t] Send show ?thesis by auto
  qed
next
  case (Ack p)
  with st have rcv: "rdt_rcv s p = Inr s'" by (simp add: step_def)
  note fr = rdt_rcv_frame [OF rcv]
  show ?thesis
  proof (cases "\<not> corrupted p \<and> seq_num p \<in> fmdom' (sndpkt s)")
    case True
    with fr tm have look: "fmlookup (timers (stop_timer s (seq_num p))) sn = Some t" by simp
    have "sn \<noteq> seq_num p \<and> fmlookup (timers s) sn = Some t"
    proof (cases "fmlookup (timers s) (seq_num p)")
      case None
      with look show ?thesis by (auto simp: stop_timer_def)
    next
      case (Some t')
      with inv [OF Some] look show ?thesis
        by (auto simp: stop_timer_def split: if_splits)
    qed
    with inv [of sn t] fr Ack show ?thesis by auto
  next
    case False
    with fr tm have old: "fmlookup (timers s) sn = Some t" by simp
    from inv [OF old] False have "corrupted p \<or> seq_num p \<noteq> sn" by auto
    with inv [OF old] old fr Ack show ?thesis by auto
  qed
next
  case (Timeout sn')
  show ?thesis
  proof (cases "\<exists>t'. fmlookup (timers s) sn' = Some t' \<and> \<not> triggered t'")
    case False
    with st Timeout have "s' = s"
      by (auto simp: step_def split: option.splits if_splits)
    with tm inv [of sn t] Timeout show ?thesis by auto
  next
    case True
    then obtain t' where t': "fmlookup (timers s) sn' = Some t'" "\<not> triggered t'" by blast
    from inv [OF t'(1)] have buf: "sn' \<in> fmdom' (sndpkt s)" by simp
    from t'(1) have intab: "sn' \<in> fmdom' (timers s)" by (rule fmdom'I)
    from st Timeout t' have "timer_behavior s sn' = Inr s'" by (simp add: step_def)
    with buf intab have s': "sndpkt s' = sndpkt s"
      "timers s' = fmupd sn' (Process False) (fmdrop sn' (timers s))"
      by (auto simp: timer_behavior_def timeout_action_def udt_send_def start_timer_def
            Let_def)
    show ?thesis
    proof (cases "sn = sn'")
      case True
      with tm s' t' buf Timeout show ?thesis by auto
    next
      case False
      with tm s' have old: "fmlookup (timers s) sn = Some t" by simp
      with inv [OF old] s' Timeout show ?thesis by auto
    qed
  qed
qed

text \<open>
  Along a run that starts with an empty timer table, a timer in the table goes back to
  an accepted submission of its sequence number after which no uncorrupted
  acknowledgment for that sequence number was processed.
\<close>

lemma timer_history:
  assumes "timers s0 = fmempty"
  shows "run s0 es = Inr s \<Longrightarrow> fmlookup (timers s) sn = Some t \<Longrightarrow>
         \<not> triggered t \<and> sn \<in> fmdom' (sndpkt s) \<and>
         (\<exists>es1 msg es2 s1 s1'.
            es = es1 @ Send msg # es2 \<and> run s0 es1 = Inr s1 \<and> nextseqnum s1 = sn \<and>
            rdt_send s1 msg = Inr (True, s1') \<and>
            (\<forall>p. Ack p \<in> set es2 \<longrightarrow> corrupted p \<or> seq_num p \<noteq> sn))"
proof (induction es arbitrary: s sn t rule: rev_induct)
  case Nil
  with assms show ?case by simp
next
  case (snoc e es)
  from snoc.prems(1) obtain sp where sp: "run s0 es = Inr sp" and st: "step sp e = Inr s"
    by (auto simp: run_snoc split: sum.splits)
  have inv: "\<And>sn t. fmlookup (timers sp) sn = Some t \<Longrightarrow>
                      \<not> triggered t \<and> sn \<in> fmdom' (sndpkt sp)"
    using snoc.IH [OF sp] by blast
  from step_timers [OF inv st snoc.prems(2)]
  have good: "\<not> triggered t" "sn \<in> fmdom' (sndpkt s)"
    and how: "(\<exists>msg s''. e = Send msg \<and> nextseqnum sp = sn \<and> rdt_send sp msg = Inr (True, s''))
          \<or> ((\<exists>t0. fmlookup (timers sp) sn = Some t0) \<and>
              (\<forall>p. e = Ack p \<longrightarrow> corrupted p \<or> seq_num p \<noteq> sn))"
    by blast+
  from how have "\<exists>es1 msg es2 s1 s1'.
            es @ [e] = es1 @ Send msg # es2 \<and> run s0 es1 = Inr s1 \<and> nextseqnum s1 = sn \<and>
            rdt_send s1 msg = Inr (True, s1') \<and>
            (\<forall>p. Ack p \<in> set es2 \<longrightarrow> corrupted p \<or> seq_num p \<noteq> sn)"
  proof
    assume "\<exists>msg s''. e = Send msg \<and> nextseqnum sp = sn \<and> rdt_send sp msg = Inr (True, s'')"
    then obtain msg s'' where "e = Send msg" "nextseqnum sp = sn"
      "rdt_send sp msg = Inr (True, s'')" by blast
    with sp show ?thesis
      by (intro exI [of _ es] exI [of _ msg] exI [of _ "[]"] exI [of _ sp] exI [of _ s'']) simp
  next
    assume old: "(\<exists>t0. fmlookup (timers sp) sn = Some t0) \<and>
                 (\<forall>p. e = Ack p \<longrightarrow> corrupted p \<or> seq_num p \<noteq> sn)"
    then obtain t0 where "fmlookup (timers sp) sn = Some t0" by blast
    from snoc.IH [OF sp this] obtain es1 msg es2 s1 s1' where
      d: "es = es1 @ Send msg # es2" "run s0 es1 = Inr s1" "nextseqnum s1 = sn"
         "rdt_send s1 msg = Inr (True, s1')"
         "\<forall>p. Ack p \<in> set es2 \<longrightarrow> corrupted p \<or> seq_num p \<noteq> sn"
      by blast
    from d(5) old have "\<forall>p. Ack p \<in> set (es2 @ [e]) \<longrightarrow> corrupted p \<or> seq_num p \<noteq> sn"
      by auto
    with d(1-4) show ?thesis
      by (intro exI [of _ es1] exI [of _ msg] exI [of _ "es2 @ [e]"] exI [of _ s1]
            exI [of _ s1']) simp
  qed
  with good show ?case by blast
qed

text \<open>
  Claim C7. \<^verbatim>\<open>timeout_action\<close> does nothing for a sequence number that is not in
  \<^verbatim>\<open>sndpkt\<close>. For one that is (and has the timer entry the firing process is stored
  under) it hands the channel the very packet stored in \<^verbatim>\<open>sndpkt\<close> and nothing else,
  adds one to \<^verbatim>\<open>num_retransmissions\<close> and to \<^verbatim>\<open>total_packets_sent\<close>, and replaces
  the timer entry by a fresh process; \<^verbatim>\<open>sndpkt\<close> is not touched. The method does not
  look at \<^verbatim>\<open>acknowledged\<close>: that a timeout fires for unacknowledged packets only is
  the work of \<^verbatim>\<open>stop_timer\<close> in \<^verbatim>\<open>rdt_rcv\<close>. So the third part is about runs: when,
  after a run from a state with no timers, a timeout event for a sequence number
  changes the sender, that number is in \<^verbatim>\<open>sndpkt\<close>, it was submitted and accepted
  earlier in the run, no uncorrupted acknowledgment for it was processed since, and
  the change is the retransmission just described.
\<close>

theorem timeout_retransmits_the_buffered_unacknowledged_packet:
  "(sn \<notin> fmdom' (sndpkt s) \<longrightarrow> timeout_action s sn = Inr s) \<and>
   (sn \<in> fmdom' (sndpkt s) \<and> sn \<in> fmdom' (timers s) \<longrightarrow>
      timeout_action s sn =
        Inr (s\<lparr>channel := channel s @ [the (fmlookup (sndpkt s) sn)],
                num_retransmissions := num_retransmissions s + 1,
                total_packets_sent := total_packets_sent s + 1,
                timers := fmupd sn (Process False) (fmdrop sn (timers s)),
                timer_is_running := True\<rparr>)) \<and>
   (timers s0 = fmempty \<and> run s0 es = Inr r \<and> step r (Timeout sn') = Inr r' \<and> r' \<noteq> r \<longrightarrow>
      sn' \<in> fmdom' (sndpkt r) \<and>
      (\<exists>es1 msg es2 s1 s1'.
         es = es1 @ Send msg # es2 \<and> run s0 es1 = Inr s1 \<and> nextseqnum s1 = sn' \<and>
         rdt_send s1 msg = Inr (True, s1') \<and>
         (\<forall>p. Ack p \<in> set es2 \<longrightarrow> corrupted p \<or> seq_num p \<noteq> sn')) \<and>
      r' = r\<lparr>channel := channel r @ [the (fmlookup (sndpkt r) sn')],
              num_retransmissions := num_retransmissions r + 1,
              total_packets_sent := total_packets_sent r + 1,
              timers := fmupd sn' (Process False) (fmdrop sn' (timers r)),
              timer_is_running := True\<rparr>)"
proof (intro conjI impI)
  assume "sn \<notin> fmdom' (sndpkt s)"
  then show "timeout_action s sn = Inr s" by (simp add: timeout_action_def)
next
  assume "sn \<in> fmdom' (sndpkt s) \<and> sn \<in> fmdom' (timers s)"
  then show "timeout_action s sn =
        Inr (s\<lparr>channel := channel s @ [the (fmlookup (sndpkt s) sn)],
                num_retransmissions := num_retransmissions s + 1,
                total_packets_sent := total_packets_sent s + 1,
                timers := fmupd sn (Process False) (fmdrop sn (timers s)),
                timer_is_running := True\<rparr>)"
    by (simp add: timeout_action_def udt_send_def start_timer_def Let_def)
next
  assume a: "timers s0 = fmempty \<and> run s0 es = Inr r \<and> step r (Timeout sn') = Inr r' \<and> r' \<noteq> r"
  then obtain t where t: "fmlookup (timers r) sn' = Some t" "\<not> triggered t"
    and fire: "timer_behavior r sn' = Inr r'"
    by (auto simp: step_def split: option.splits if_splits)
  from a have e: "timers s0 = fmempty" and run: "run s0 es = Inr r" by simp_all
  note h = timer_history [OF e run t(1)]
  from h show "sn' \<in> fmdom' (sndpkt r)" by blast
  from h show "\<exists>es1 msg es2 s1 s1'.
         es = es1 @ Send msg # es2 \<and> run s0 es1 = Inr s1 \<and> nextseqnum s1 = sn' \<and>
         rdt_send s1 msg = Inr (True, s1') \<and>
         (\<forall>p. Ack p \<in> set es2 \<longrightarrow> corrupted p \<or> seq_num p \<noteq> sn')" by blast
  from h have buf: "sn' \<in> fmdom' (sndpkt r)" by blast
  from t(1) have intab: "sn' \<in> fmdom' (timers r)" by (rule fmdom'I)
  from fire buf intab
  show "r' = r\<lparr>channel := channel r @ [the (fmlookup (sndpkt r) sn')],
              num_retransmissions := num_retransmissions r + 1,
              total_packets_sent := total_packets_sent r + 1,
              timers := fmupd sn' (Process False) (fmdrop sn' (timers r)),
              timer_is_running := True\<rparr>"
    by (simp add: timer_behavior_def timeout_action_def udt_send_def start_timer_def Let_def)
qed

text \<open>Scenario B: the timeout of packet 2 retransmits packet 2 once and nothing else.\<close>

lemma scenario_B_state:
  "scenario_B =
     scenario_A\<lparr>channel := [data_packet 1 ''a'', data_packet 2 ''b''],
                 nextseqnum := 3,
                 sndpkt := fmupd 2 (data_packet 2 ''b'')
                              (fmupd 1 (data_packet 1 ''a'') fmempty),
                 total_packets_sent := 2,
                 timers := fmupd 2 (Process False) (fmupd 1 (Process False) fmempty),
                 timer_is_running := True\<rparr>"
  by (simp add: scenario_B_def scenario_A_def sender_defs data_packet_def)

theorem timeout_retransmits_the_buffered_unacknowledged_packet_witness:
  "(7 \<notin> fmdom' (sndpkt scenario_B) \<and> timeout_action scenario_B 7 = Inr scenario_B) \<and>
   (2 \<in> fmdom' (sndpkt scenario_B) \<and> 2 \<in> fmdom' (timers scenario_B) \<and>
    (\<exists>s'. timeout_action scenario_B 2 = Inr s' \<and>
           channel s' = [data_packet 1 ''a'', data_packet 2 ''b'', data_packet 2 ''b''] \<and>
           num_retransmissions s' = 1 \<and> total_packets_sent s' = 3 \<and>
           fmlookup (timers s') 2 = Some (Process False))) \<and>
   (timers scenario_A = fmempty \<and>
    run scenario_A [Send ''a'', Send ''b''] = Inr scenario_B \<and>
    (\<exists>r'. step scenario_B (Timeout 2) = Inr r' \<and> r' \<noteq> scenario_B \<and>
           channel r' = [data_packet 1 ''a'', data_packet 2 ''b'', data_packet 2 ''b''] \<and>
           (\<exists>es1 msg es2 s1 s1'.
              [Send ''a'', Send ''b''] = es1 @ Send msg # es2 \<and>
              run scenario_A es1 = Inr s1 \<and> nextseqnum s1 = 2 \<and>
              rdt_send s1 msg = Inr (True, s1') \<and>
              (\<forall>p. Ack p \<in> set es2 \<longrightarrow> corrupted p \<or> seq_num p \<noteq> 2))))"
proof -
  let ?B = scenario_B
  have n7: "7 \<notin> fmdom' (sndpkt ?B)" and b2: "2 \<in> fmdom' (sndpkt ?B)"
    and t2: "2 \<in> fmdom' (timers ?B)"
    by (simp_all add: scenario_B_state)
  have e: "timers scenario_A = fmempty" by (simp add: scenario_A_def init_sender_def)
  have run: "run scenario_A [Send ''a'', Send ''b''] = Inr ?B"
    unfolding scenario_B_state
    by (simp add: scenario_A_def sender_defs data_packet_def)
  let ?r' = "?B\<lparr>channel := channel ?B @ [the (fmlookup (sndpkt ?B) 2)],
                num_retransmissions := num_retransmissions ?B + 1,
                total_packets_sent := total_packets_sent ?B + 1,
                timers := fmupd 2 (Process False) (fmdrop 2 (timers ?B)),
                timer_is_running := True\<rparr>"
  have fire: "step ?B (Timeout 2) = Inr ?r'"
    by (simp add: scenario_B_state scenario_A_def sender_defs)
  have diff: "?r' \<noteq> ?B"
    by (simp add: scenario_B_state scenario_A_def init_sender_def)
  have ch: "channel ?r' = [data_packet 1 ''a'', data_packet 2 ''b'', data_packet 2 ''b'']"
    "num_retransmissions ?r' = 1" "total_packets_sent ?r' = 3"
    "fmlookup (timers ?r') 2 = Some (Process False)"
    by (simp_all add: scenario_B_state scenario_A_def init_sender_def)
  note claim = timeout_retransmits_the_buffered_unacknowledged_packet
  from claim [of 7 ?B] n7 have c1: "timeout_action ?B 7 = Inr ?B" by blast
  from claim [of 2 ?B] b2 t2 have c2: "timeout_action ?B 2 = Inr ?r'" by blast
  from claim [of 2 ?B scenario_A "[Send ''a'', Send ''b'']" ?B 2 ?r'] e run fire diff
  have c3: "\<exists>es1 msg es2 s1 s1'.
              [Send ''a'', Send ''b''] = es1 @ Send msg # es2 \<and>
              run scenario_A es1 = Inr s1 \<and> nextseqnum s1 = 2 \<and>
              rdt_send s1 msg = Inr (True, s1') \<and>
              (\<forall>p. Ack p \<in> set es2 \<longrightarrow> corrupted p \<or> seq_num p \<noteq> 2)"
    by blast
  from n7 c1 b2 t2 c2 ch e run fire diff c3 show ?thesis by blast
qed

subsection \<open>Packet records are never removed\<close>

text \<open>
  \<^verbatim>\<open>rdt_rcv\<close> tests \<^verbatim>\<open>packt.seq_num in self.sndpkt.keys()\<close> under the comment
  ``Check if we got an ACK for a packet within the current window'' and reports the
  other branch as ``an ACK for a packet in the old window. Ignoring it.'' But no method
  deletes from \<^verbatim>\<open>sndpkt\<close>: the loop deletes \<^verbatim>\<open>acknowledged[base]\<close> alone. So a
  sequence number stays in \<^verbatim>\<open>sndpkt\<close> once it has been sent, an acknowledgment for a
  packet of the old window takes the first branch, and it puts an entry back into
  \<^verbatim>\<open>acknowledged\<close> behind the base. The three evaluations at the end of this
  section run the code on inputs where this shows. A second acknowledgment for 1 in
  them is the receiver's answer to the copy that the timeout has retransmitted.
\<close>

text \<open>The ignoring branch is taken only for a sequence number that is not in
  \<^verbatim>\<open>sndpkt\<close>, and no step of a run takes a sequence number out of \<^verbatim>\<open>sndpkt\<close>.\<close>

lemma ack_outside_sndpkt_is_ignored:
  "\<not> corrupted packt \<Longrightarrow> seq_num packt \<notin> fmdom' (sndpkt s) \<Longrightarrow> rdt_rcv s packt = Inr s"
  by (simp add: rdt_rcv_def)

lemma step_keeps_sndpkt:
  assumes "step s e = Inr s'"
  shows "fmdom' (sndpkt s) \<subseteq> fmdom' (sndpkt s')"
proof (cases e)
  case (Send msg)
  with assms obtain b where "rdt_send s msg = Inr (b, s')"
    by (auto simp: step_def split: sum.splits)
  from rdt_send_cases [OF this] show ?thesis
    by (auto simp: start_timer_def)
next
  case (Ack packt)
  with assms rdt_rcv_frame [of s packt s'] show ?thesis by (simp add: step_def)
next
  case (Timeout sn)
  with assms timer_behavior_frame [of s sn s'] show ?thesis
    by (auto simp: step_def split: option.splits if_splits)
qed

lemma run_keeps_sndpkt:
  "run s es = Inr s' \<Longrightarrow> fmdom' (sndpkt s) \<subseteq> fmdom' (sndpkt s')"
proof (induction es arbitrary: s)
  case Nil
  then show ?case by simp
next
  case (Cons e es)
  then obtain s1 where "step s e = Inr s1" "run s1 es = Inr s'"
    by (auto split: sum.splits)
  with step_keeps_sndpkt [of s e s1] Cons.IH [of s1] show ?case by blast
qed

text \<open>
  \<^verbatim>\<open>rdt_send\<close> keeps \<open>(nextseqnum - base) mod K \<le> N\<close>: it assigns \<^verbatim>\<open>nextseqnum\<close>
  only under the guard of line 44. The timeout does not assign \<^verbatim>\<open>base\<close> or
  \<^verbatim>\<open>nextseqnum\<close> at all. It is the loop of \<^verbatim>\<open>rdt_rcv\<close> that can break the bound.
\<close>

lemma rdt_send_keeps_window_invariant:
  assumes k: "0 < K s" and inv: "(nextseqnum s - base s) mod K s \<le> N s"
    and snd: "rdt_send s msg = Inr (b, s')"
  shows "(nextseqnum s' - base s') mod K s' \<le> N s'"
proof (cases b)
  case False
  with rdt_send_cases [OF snd] inv show ?thesis by simp
next
  case True
  with snd k have "nextseqnum s \<in> set (map (\<lambda>i. (base s + i) mod K s) [0..N s - 1])"
    by (auto simp: rdt_send_def window_def split: if_splits)
  with k have lt: "(nextseqnum s - base s) mod K s < N s"
    by (simp only: in_window_iff)
  from True rdt_send_cases [OF snd]
  have s': "nextseqnum s' = (nextseqnum s + 1) mod K s" "base s' = base s" "K s' = K s"
    "N s' = N s"
    by (auto simp: start_timer_def)
  have "((nextseqnum s + 1) mod K s - base s) mod K s
        = ((nextseqnum s - base s) + 1) mod K s"
    by (simp add: mod_diff_left_eq algebra_simps)
  also have "\<dots> = ((nextseqnum s - base s) mod K s + 1) mod K s"
    by (rule mod_add_left_eq [symmetric])
  also have "\<dots> \<le> (nextseqnum s - base s) mod K s + 1"
    using k by (intro zmod_le_nonneg_dividend) simp
  finally show ?thesis using lt s' by simp
qed

lemmas run_eval = sender_defs data_packet_def rdt_rcv_loop.simps in_window_image fmdrop_fmupd

text \<open>
  Claim C3, at a failing input. After packet 1 has been sent, retransmitted and
  acknowledged, the base is 2 and nothing is outstanding. The second, uncorrupted
  acknowledgment for 1 is for a sequence number the base has advanced past; the claim
  has it change nothing, and the code records \<open>1 \<mapsto> True\<close> in \<^verbatim>\<open>acknowledged\<close>.
\<close>

theorem ack_behind_the_base_changes_the_sender:
  "\<exists>s. run init_sender [Send ''a'', Timeout 1, Ack (ack_for 1)] = Inr s \<and>
        base s = 2 \<and> acknowledged s = fmempty \<and> timers s = fmempty \<and>
        \<not> corrupted (ack_for 1) \<and>
        rdt_rcv s (ack_for 1) = Inr (s\<lparr>acknowledged := fmupd 1 True fmempty\<rparr>) \<and>
        s\<lparr>acknowledged := fmupd 1 True fmempty\<rparr> \<noteq> s"
  by (simp add: run_eval)

text \<open>
  Claim C4, at a failing input. With \<open>N = 1\<close> and \<open>K = 3\<close> the entry left behind by
  the second acknowledgment for 1 is still there when the base comes round to 1 again:
  the loop takes it for the acknowledgment of a packet that has not been sent yet and
  moves the base to 2, past \<^verbatim>\<open>nextseqnum = 1\<close>. Then \<open>(nextseqnum - base) mod K = 2\<close>
  exceeds \<open>N\<close>, and the sender refuses every later submission.
\<close>

theorem stale_acknowledgments_break_the_window_invariant:
  "\<exists>s. run (init_sender\<lparr>N := 1, K := 3\<rparr>)
             [Send ''a'', Timeout 1, Ack (ack_for 1), Ack (ack_for 1),
              Send ''b'', Ack (ack_for 2), Send ''c'', Ack (ack_for 0)] = Inr s \<and>
        N s = 1 \<and> K s = 3 \<and> base s = 2 \<and> nextseqnum s = 1 \<and>
        (nextseqnum s - base s) mod K s = 2 \<and>
        rdt_send s ''d'' = Inr (False, s)"
  by (simp add: run_eval)

text \<open>
  Claim C5, at a failing input. After the window has slid past 1 the packet record of 1
  is still in \<^verbatim>\<open>sndpkt\<close>; and after the second acknowledgment for 1,
  \<^verbatim>\<open>acknowledged\<close> has an entry for 1 too, though the base is 2.
\<close>

theorem sliding_keeps_the_packet_record:
  "(\<exists>s. run init_sender [Send ''a'', Ack (ack_for 1)] = Inr s \<and>
         base s = 2 \<and> fmlookup (sndpkt s) 1 = Some (data_packet 1 ''a'')) \<and>
   (\<exists>s. run init_sender [Send ''a'', Timeout 1, Ack (ack_for 1), Ack (ack_for 1)] = Inr s \<and>
         base s = 2 \<and> fmlookup (sndpkt s) 1 = Some (data_packet 1 ''a'') \<and>
         fmlookup (acknowledged s) 1 = Some True)"
  by (simp add: run_eval)

end
